theory Spec2Isabelle
  imports Complex_Main
begin

section \<open>Focus Lock: pattern engine, lock policy, stores and timers\<close>

text \<open>
  A shallow embedding of the logic of the Focus Lock application: the storage helpers and
  pattern functions of \<^verbatim>\<open>lib/storage\<close> (getRelapseLogs, addRelapseLog, getCurrentStreak,
  getTodayRelapseCount, getWeeklyPattern, getHourlyPattern, getRiskWindows, formatHour),
  the lock decision of the home screen, and the countdown timers of the focus-session and
  replacement-action screens.

  JavaScript numbers that hold integers (epoch milliseconds, counts, hours) are \<open>int\<close> or
  \<open>nat\<close>. The wall clock and the random id suffix are explicit parameters. The host's local
  time zone, which the \<^verbatim>\<open>Date\<close> getters and the \<^verbatim>\<open>Date\<close> constructor consult, is an
  explicit parameter too.
\<close>

subsection \<open>Numbers as text\<close>

definition digit :: "nat \<Rightarrow> char" where
  "digit n = ''0123456789'' ! n"

function show_nat :: "nat \<Rightarrow> string" where
  "show_nat n = (if n < 10 then [digit n] else show_nat (n div 10) @ [digit (n mod 10)])"
  by pat_completeness auto
termination
  by (relation "measure (\<lambda>n. n)") auto

declare show_nat.simps [simp del]

text \<open>What a template literal prints for an integer-valued number.\<close>

definition show_int :: "int \<Rightarrow> string" where
  "show_int i = (if i < 0 then CHR ''-'' # show_nat (nat (- i)) else show_nat (nat i))"

subsection \<open>The host's clock and calendar\<close>

text \<open>
  ECMAScript reads local time through \<open>LocalTZA(t, isUTC)\<close>, the offset in milliseconds of
  the host's zone: at the UTC instant \<open>t\<close> when \<open>isUTC\<close> is true, and for the local time
  value \<open>t\<close> when it is false. A zone is these two functions.
\<close>

record zone =
  tzaOfUTC :: "int \<Rightarrow> int"
  tzaOfLocal :: "int \<Rightarrow> int"

definition msPerDay :: int where
  "msPerDay = 24 * 60 * 60 * 1000"

definition msPerHour :: int where
  "msPerHour = 60 * 60 * 1000"

definition LocalTime :: "zone \<Rightarrow> int \<Rightarrow> int" where
  "LocalTime z t = t + tzaOfUTC z t"

definition UTC :: "zone \<Rightarrow> int \<Rightarrow> int" where
  "UTC z t = t - tzaOfLocal z t"

definition Day :: "int \<Rightarrow> int" where
  "Day t = t div msPerDay"

text \<open>The local calendar day of an instant, as a day number.\<close>

definition localDay :: "zone \<Rightarrow> int \<Rightarrow> int" where
  "localDay z t = Day (LocalTime z t)"

text \<open>
  \<^verbatim>\<open>new Date(d.getFullYear(), d.getMonth(), d.getDate() - i).getTime()\<close> for the date \<open>d\<close>
  of instant \<open>t\<close>: the getters give the year, month and date of local day
  \<open>localDay z t\<close>, the constructor carries a date below 1 into the earlier months, so it
  builds local midnight of day \<open>localDay z t - i\<close> and converts it to UTC.
\<close>

definition localMidnight :: "zone \<Rightarrow> int \<Rightarrow> int \<Rightarrow> int" where
  "localMidnight z t i = UTC z ((localDay z t - i) * msPerDay)"

text \<open>\<^verbatim>\<open>new Date(t).getHours()\<close>.\<close>

definition getHours :: "zone \<Rightarrow> int \<Rightarrow> nat" where
  "getHours z t = nat ((LocalTime z t div msPerHour) mod 24)"

text \<open>A zone with one offset all year, and UTC.\<close>

definition fixedZone :: "int \<Rightarrow> zone" where
  "fixedZone off = \<lparr>tzaOfUTC = (\<lambda>t. off), tzaOfLocal = (\<lambda>t. off)\<rparr>"

definition utcZone :: zone where
  "utcZone = fixedZone 0"

text \<open>
  New York in 2024: UTC-5, and UTC-4 from 2024-03-10T07:00:00Z (02:00 local, which
  becomes 03:00) until 2024-11-03T06:00:00Z (02:00 local, which becomes 01:00). A local
  time that the clock skips is read with the offset before the change, and one that it
  shows twice with the earlier reading.
\<close>

definition newYork2024 :: zone where
  "newYork2024 =
     \<lparr>tzaOfUTC = (\<lambda>t. if 1710054000000 \<le> t \<and> t < 1730613600000
                      then - 4 * msPerHour else - 5 * msPerHour),
      tzaOfLocal = (\<lambda>t. if 1710039600000 \<le> t \<and> t < 1730599200000
                      then - 4 * msPerHour else - 5 * msPerHour)\<rparr>"

subsection \<open>Records of the stores\<close>

datatype ReplacementAction = physical | writing | breathing

record RelapseLog =
  rl_id :: string
  rl_timestamp :: int
  rl_replacementAction :: ReplacementAction
  rl_journalEntry :: "string option"

record Settings =
  focusDuration :: int
  unlockThreshold :: int
  isFirstSetup :: bool

record FocusSession =
  fs_id :: string
  fs_startTime :: int
  fs_endTime :: int
  fs_duration :: int
  fs_completed :: bool
  fs_presetId :: "string option"

record JournalEntry =
  je_id :: string
  je_timestamp :: int
  je_content :: string
  je_relapseLogId :: string

subsection \<open>Array.prototype.sort with a comparator\<close>

text \<open>
  The sort is stable: elements that the comparator does not separate keep their order.
  An element goes before the first one it does not have to follow.
\<close>

fun insertBy :: "('a \<Rightarrow> 'a \<Rightarrow> int) \<Rightarrow> 'a \<Rightarrow> 'a list \<Rightarrow> 'a list" where
  "insertBy cmp x [] = [x]"
| "insertBy cmp x (y # ys) = (if cmp x y \<le> 0 then x # y # ys else y # insertBy cmp x ys)"

fun sortBy :: "('a \<Rightarrow> 'a \<Rightarrow> int) \<Rightarrow> 'a list \<Rightarrow> 'a list" where
  "sortBy cmp [] = []"
| "sortBy cmp (x # xs) = insertBy cmp x (sortBy cmp xs)"

subsection \<open>Streak and today's count\<close>

definition getCurrentStreak :: "zone \<Rightarrow> int \<Rightarrow> RelapseLog list \<Rightarrow> int" where
  "getCurrentStreak z now logs =
     (if length logs = 0 then 0
      else
        let today = localMidnight z now 0;
            sortedLogs = sortBy (\<lambda>a b. rl_timestamp b - rl_timestamp a) logs
        in case sortedLogs of
             [] \<Rightarrow> 0
           | lastRelapse # _ \<Rightarrow>
               let lastRelapseDay = localMidnight z (rl_timestamp lastRelapse) 0
               in (today - lastRelapseDay) div (1000 * 60 * 60 * 24))"

definition getTodayRelapseCount :: "zone \<Rightarrow> int \<Rightarrow> RelapseLog list \<Rightarrow> nat" where
  "getTodayRelapseCount z now logs =
     (let todayStart = localMidnight z now 0;
          todayEnd = todayStart + 24 * 60 * 60 * 1000
      in length (filter (\<lambda>log. rl_timestamp log \<ge> todayStart \<and> rl_timestamp log < todayEnd) logs))"

subsection \<open>Weekly pattern\<close>





subsection \<open>Hourly pattern and risk windows\<close>

record HourCount =
  hc_hour :: nat
  hc_count :: nat

definition hourCounts :: "zone \<Rightarrow> RelapseLog list \<Rightarrow> nat list" where
  "hourCounts z logs =
     foldl (\<lambda>cs log. let h = getHours z (rl_timestamp log) in cs[h := cs ! h + 1])
       (replicate 24 0) logs"

definition getHourlyPattern :: "zone \<Rightarrow> RelapseLog list \<Rightarrow> HourCount list" where
  "getHourlyPattern z logs =
     map (\<lambda>(h, c). \<lparr>hc_hour = h, hc_count = c\<rparr>) (enumerate 0 (hourCounts z logs))"

record RiskWindow =
  w_start :: nat
  w_end :: nat
  w_count :: nat

text \<open>
  One call of the \<^verbatim>\<open>forEach\<close> callback of getRiskWindows, on the pair of the finished
  windows and the current one. The average and the factor 1.5 are exact rationals; on an
  array of fewer than \<open>2^32\<close> logs the doubles of the source decide the comparison the
  same way.
\<close>

definition riskStep ::
  "rat \<Rightarrow> RiskWindow list \<times> RiskWindow option \<Rightarrow> HourCount \<Rightarrow> RiskWindow list \<times> RiskWindow option" where
  "riskStep avgCount st hc =
     (case st of (riskWindows, currentWindow) \<Rightarrow>
        if of_nat (hc_count hc) > avgCount * (3 / 2) \<and> hc_count hc \<ge> 2 then
          (case currentWindow of
             Some w \<Rightarrow>
               if hc_hour hc = w_end w
               then (riskWindows, Some (w\<lparr>w_end := hc_hour hc + 1, w_count := w_count w + hc_count hc\<rparr>))
               else (riskWindows @ [w],
                     Some \<lparr>w_start = hc_hour hc, w_end = hc_hour hc + 1, w_count = hc_count hc\<rparr>)
           | None \<Rightarrow>
               (riskWindows, Some \<lparr>w_start = hc_hour hc, w_end = hc_hour hc + 1, w_count = hc_count hc\<rparr>))
        else
          (case currentWindow of
             Some w \<Rightarrow> (riskWindows @ [w], None)
           | None \<Rightarrow> (riskWindows, None)))"

text \<open>The windows in the order the scan finds them, before the final sort.\<close>

definition scanWindows :: "rat \<Rightarrow> HourCount list \<Rightarrow> RiskWindow list" where
  "scanWindows avgCount hourlyPattern =
     (case foldl (riskStep avgCount) ([], None) hourlyPattern of
        (riskWindows, currentWindow) \<Rightarrow>
          (case currentWindow of Some w \<Rightarrow> riskWindows @ [w] | None \<Rightarrow> riskWindows))"

definition getRiskWindows :: "zone \<Rightarrow> RelapseLog list \<Rightarrow> RiskWindow list" where
  "getRiskWindows z logs =
     (let hourlyPattern = getHourlyPattern z logs;
          avgCount = (if length logs > 0 then of_nat (length logs) / 24 else 0)
      in sortBy (\<lambda>a b. int (w_count b) - int (w_count a)) (scanWindows avgCount hourlyPattern))"

text \<open>
  The specification's wording. An hour is elevated when its count exceeds
  \<open>(total / 24) * 1.5\<close> and is at least 2; a window is a maximal run of adjacent
  elevated hours, with the sum of their counts.
\<close>

definition elevated :: "nat \<Rightarrow> nat \<Rightarrow> bool" where
  "elevated n c \<longleftrightarrow> (of_nat c :: rat) > (of_nat n / 24) * (3 / 2) \<and> c \<ge> 2"

function mergedWindows :: "nat \<Rightarrow> nat \<Rightarrow> nat list \<Rightarrow> RiskWindow list" where
  "mergedWindows n h [] = []"
| "mergedWindows n h (c # cs) =
     (if elevated n c
      then \<lparr>w_start = h,
            w_end = h + 1 + length (takeWhile (elevated n) cs),
            w_count = c + sum_list (takeWhile (elevated n) cs)\<rparr>
           # mergedWindows n (h + 1 + length (takeWhile (elevated n) cs))
               (dropWhile (elevated n) cs)
      else mergedWindows n (h + 1) cs)"
  by pat_completeness auto
termination
  by (relation "measure (\<lambda>(n, h, cs). length cs)")
     (auto simp: le_imp_less_Suc length_dropWhile_le)

subsection \<open>The key-value store\<close>

text \<open>
  A stored string is kept as what \<^verbatim>\<open>JSON.parse\<close> makes of it: the empty string, a
  non-empty string that is not JSON, or the JSON text of a value (\<^verbatim>\<open>JSON.stringify\<close>
  writes the last kind, and parsing gives the value back). Each key of the store holds the
  outcome of \<^verbatim>\<open>AsyncStorage.getItem\<close>: a rejection, \<open>null\<close>, or a string. A promise is the
  sum of its rejection and its value.
\<close>

datatype error = StorageError | SyntaxError

datatype 'a stored = EmptyText | Garbage | Json 'a

record store =
  RELAPSE_LOGS :: "error + RelapseLog list stored option"
  FOCUS_SESSIONS :: "error + FocusSession list stored option"
  JOURNAL_ENTRIES :: "error + JournalEntry list stored option"

definition JSON_parse :: "'a stored \<Rightarrow> error + 'a" where
  "JSON_parse d = (case d of Json v \<Rightarrow> Inr v | Garbage \<Rightarrow> Inl SyntaxError | EmptyText \<Rightarrow> Inl SyntaxError)"

text \<open>A string is truthy unless it is empty.\<close>

definition truthy :: "'a stored \<Rightarrow> bool" where
  "truthy d = (case d of EmptyText \<Rightarrow> False | _ \<Rightarrow> True)"

definition try_catch :: "error + 'a \<Rightarrow> 'a \<Rightarrow> error + 'a" where
  "try_catch body handler = (case body of Inl e \<Rightarrow> Inr handler | Inr v \<Rightarrow> Inr v)"

definition getRelapseLogs :: "store \<Rightarrow> error + RelapseLog list" where
  "getRelapseLogs st =
     try_catch
       (case RELAPSE_LOGS st of
          Inl e \<Rightarrow> Inl e
        | Inr data \<Rightarrow>
            (case data of
               Some d \<Rightarrow> if truthy d then JSON_parse d else Inr []
             | None \<Rightarrow> Inr []))
       []"

definition getFocusSessions :: "store \<Rightarrow> error + FocusSession list" where
  "getFocusSessions st =
     try_catch
       (case FOCUS_SESSIONS st of
          Inl e \<Rightarrow> Inl e
        | Inr data \<Rightarrow>
            (case data of
               Some d \<Rightarrow> if truthy d then JSON_parse d else Inr []
             | None \<Rightarrow> Inr []))
       []"

definition getJournalEntries :: "store \<Rightarrow> error + JournalEntry list" where
  "getJournalEntries st =
     try_catch
       (case JOURNAL_ENTRIES st of
          Inl e \<Rightarrow> Inl e
        | Inr data \<Rightarrow>
            (case data of
               Some d \<Rightarrow> if truthy d then JSON_parse d else Inr []
             | None \<Rightarrow> Inr []))
       []"

text \<open>
  What one append reads from outside: \<^verbatim>\<open>Date.now()\<close> for the id, the random suffix
  \<^verbatim>\<open>Math.random().toString(36).substr(2, 9)\<close>, and \<^verbatim>\<open>Date.now()\<close> for the timestamp.
\<close>

record fresh =
  idNow :: int
  idRandom :: string
  stampNow :: int

definition newId :: "fresh \<Rightarrow> string" where
  "newId f = show_int (idNow f) @ ''-'' @ idRandom f"

text \<open>\<^verbatim>\<open>setItem\<close> is taken to succeed. An awaited rejection ends the function with it.\<close>

definition addJournalEntry ::
  "fresh \<Rightarrow> string \<Rightarrow> string \<Rightarrow> store \<Rightarrow> store \<times> (error + JournalEntry)" where
  "addJournalEntry f content relapseLogId st =
     (case getJournalEntries st of
        Inl e \<Rightarrow> (st, Inl e)
      | Inr entries \<Rightarrow>
          let newEntry = \<lparr>je_id = newId f, je_timestamp = stampNow f,
                          je_content = content, je_relapseLogId = relapseLogId\<rparr>
          in (st\<lparr>JOURNAL_ENTRIES := Inr (Some (Json (entries @ [newEntry])))\<rparr>, Inr newEntry))"

definition addRelapseLog ::
  "fresh \<Rightarrow> fresh \<Rightarrow> ReplacementAction \<Rightarrow> string option \<Rightarrow> store \<Rightarrow> store \<times> (error + RelapseLog)" where
  "addRelapseLog f g replacementAction journalEntry st =
     (case getRelapseLogs st of
        Inl e \<Rightarrow> (st, Inl e)
      | Inr logs \<Rightarrow>
          let newLog = \<lparr>rl_id = newId f, rl_timestamp = stampNow f,
                        rl_replacementAction = replacementAction, rl_journalEntry = journalEntry\<rparr>;
              st1 = st\<lparr>RELAPSE_LOGS := Inr (Some (Json (logs @ [newLog])))\<rparr>
          in (case journalEntry of
                None \<Rightarrow> (st1, Inr newLog)
              | Some entry \<Rightarrow>
                  if entry = [] then (st1, Inr newLog)
                  else (case addJournalEntry g entry (rl_id newLog) st1 of
                          (st2, Inl e) \<Rightarrow> (st2, Inl e)
                        | (st2, Inr _) \<Rightarrow> (st2, Inr newLog))))"

subsection \<open>Completing a replacement action\<close>

text \<open>
  \<^verbatim>\<open>String.prototype.trim\<close> on a string of code units below 256: the white space and
  line terminators there are tab, line feed, vertical tab, form feed, carriage return,
  space and the no-break space.
\<close>

definition isSpace :: "char \<Rightarrow> bool" where
  "isSpace c \<longleftrightarrow> c \<in> set [CHR 0x09, CHR 0x0A, CHR 0x0B, CHR 0x0C, CHR 0x0D, CHR 0x20, CHR 0xA0]"

definition trim :: "string \<Rightarrow> string" where
  "trim s = rev (dropWhile isSpace (rev (dropWhile isSpace s)))"

definition handleComplete ::
  "fresh \<Rightarrow> fresh \<Rightarrow> ReplacementAction option \<Rightarrow> string \<Rightarrow> store \<Rightarrow> store" where
  "handleComplete f g selectedAction journalText st =
     (case selectedAction of
        None \<Rightarrow> st
      | Some a \<Rightarrow>
          let journal = (if a = writing \<and> trim journalText \<noteq> [] then Some (trim journalText) else None)
          in fst (addRelapseLog f g a journal st))"

subsection \<open>Countdown timers\<close>

text \<open>
  The state of the focus-session screen that its interval callback reads and writes.
  \<open>ft_timer\<close> says that the interval of \<open>timerRef\<close> is registered; once
  \<^verbatim>\<open>clearInterval\<close> has run the callback is not called again. \<open>ft_completions\<close> counts the
  runs of the branch \<^verbatim>\<open>remaining === 0\<close>, which calls \<^verbatim>\<open>setIsComplete(true)\<close>.
\<close>

record FocusTimer =
  ft_remainingSeconds :: int
  ft_isComplete :: bool
  ft_startTime :: int
  ft_timer :: bool
  ft_completions :: nat

definition focusMount :: "int \<Rightarrow> int \<Rightarrow> FocusTimer" where
  "focusMount totalSeconds now =
     \<lparr>ft_remainingSeconds = totalSeconds, ft_isComplete = False, ft_startTime = now,
      ft_timer = True, ft_completions = 0\<rparr>"

definition focusTick :: "int \<Rightarrow> int \<Rightarrow> FocusTimer \<Rightarrow> FocusTimer" where
  "focusTick totalSeconds now st =
     (if \<not> ft_timer st then st
      else
        let elapsed = (now - ft_startTime st) div 1000;
            remaining = max 0 (totalSeconds - elapsed);
            st1 = st\<lparr>ft_remainingSeconds := remaining\<rparr>
        in if remaining = 0
           then st1\<lparr>ft_isComplete := True, ft_timer := False,
                    ft_completions := ft_completions st1 + 1\<rparr>
           else st1)"

definition focusRun :: "int \<Rightarrow> FocusTimer \<Rightarrow> int list \<Rightarrow> FocusTimer" where
  "focusRun totalSeconds st ticks = foldl (\<lambda>s now. focusTick totalSeconds now s) st ticks"

text \<open>The replacement-action screen; \<open>at_breathTimer\<close> is the interval of \<open>breathTimerRef\<close>.\<close>

record Action =
  a_type :: ReplacementAction
  a_label :: string
  a_duration :: int

definition ACTIONS :: "Action list" where
  "ACTIONS =
     [\<lparr>a_type = physical, a_label = ''Physical Movement'', a_duration = 60\<rparr>,
      \<lparr>a_type = writing, a_label = ''Write Thoughts'', a_duration = 90\<rparr>,
      \<lparr>a_type = breathing, a_label = ''Breathing Exercise'', a_duration = 120\<rparr>]"

record ActionTimer =
  at_selectedAction :: "ReplacementAction option"
  at_remainingSeconds :: int
  at_isComplete :: bool
  at_startTime :: int
  at_timer :: bool
  at_breathTimer :: bool
  at_completions :: nat

definition actionInit :: ActionTimer where
  "actionInit =
     \<lparr>at_selectedAction = None, at_remainingSeconds = 0, at_isComplete = False,
      at_startTime = 0, at_timer = False, at_breathTimer = False, at_completions = 0\<rparr>"

definition handleSelectAction :: "Action \<Rightarrow> int \<Rightarrow> ActionTimer \<Rightarrow> ActionTimer" where
  "handleSelectAction action now st =
     st\<lparr>at_selectedAction := Some (a_type action),
        at_remainingSeconds := a_duration action,
        at_startTime := now,
        at_breathTimer := (if a_type action = breathing then True else at_breathTimer st),
        at_timer := True\<rparr>"

definition actionTick :: "Action \<Rightarrow> int \<Rightarrow> ActionTimer \<Rightarrow> ActionTimer" where
  "actionTick action now st =
     (if \<not> at_timer st then st
      else
        let elapsed = (now - at_startTime st) div 1000;
            remaining = max 0 (a_duration action - elapsed);
            st1 = st\<lparr>at_remainingSeconds := remaining\<rparr>
        in if remaining = 0
           then st1\<lparr>at_isComplete := True, at_timer := False, at_breathTimer := False,
                    at_completions := at_completions st1 + 1\<rparr>
           else st1)"

definition actionRun :: "Action \<Rightarrow> ActionTimer \<Rightarrow> int list \<Rightarrow> ActionTimer" where
  "actionRun action st ticks = foldl (\<lambda>s now. actionTick action now s) st ticks"

subsection \<open>Lock policy\<close>

text \<open>
  The home screen holds \<open>settings\<close> as \<open>Settings | null\<close>; the expression
  \<^verbatim>\<open>settings && !settings.isFirstSetup && streak < settings.unlockThreshold\<close> is used as a
  condition, so \<open>null\<close> counts as false.
\<close>

definition isSettingsLocked :: "Settings option \<Rightarrow> int \<Rightarrow> bool" where
  "isSettingsLocked settings streak =
     (case settings of
        None \<Rightarrow> False
      | Some s \<Rightarrow> \<not> isFirstSetup s \<and> streak < unlockThreshold s)"

subsection \<open>Hour labels\<close>

definition formatHour :: "int \<Rightarrow> string" where
  "formatHour hour =
     (if hour = 0 then ''12 AM''
      else if hour = 12 then ''12 PM''
      else if hour < 12 then show_int hour @ '' AM''
      else show_int (hour - 12) @ '' PM'')"

subsection \<open>Notions used to state the properties\<close>

text \<open>Local midnights come in the order of their days, as they do in every real zone.\<close>

definition orderedMidnights :: "zone \<Rightarrow> bool" where
  "orderedMidnights z \<longleftrightarrow> (\<forall>d e. d < e \<longrightarrow> UTC z (d * msPerDay) < UTC z (e * msPerDay))"


text \<open>The number of logs with a timestamp in the half-open interval from \<open>a\<close> to \<open>b\<close>.\<close>

definition countIn :: "RelapseLog list \<Rightarrow> int \<Rightarrow> int \<Rightarrow> nat" where
  "countIn logs a b = length (filter (\<lambda>l. a \<le> rl_timestamp l \<and> rl_timestamp l < b) logs)"

text \<open>
  The closing step of the scan, and the hourly pattern of the counts \<open>cs\<close> of the hours
  from \<open>h\<close> on.
\<close>

definition closeWindow :: "RiskWindow list \<times> RiskWindow option \<Rightarrow> RiskWindow list" where
  "closeWindow st = (case st of (rw, cur) \<Rightarrow> (case cur of Some w \<Rightarrow> rw @ [w] | None \<Rightarrow> rw))"

definition pattern :: "nat \<Rightarrow> nat list \<Rightarrow> HourCount list" where
  "pattern h cs = map (\<lambda>(h, c). \<lparr>hc_hour = h, hc_count = c\<rparr>) (enumerate h cs)"

text \<open>
  A window over the hourly counts \<open>cs\<close> of \<open>n\<close> logs that is a run of elevated hours which
  the next hour does not continue, with the sum of the counts of its hours.
\<close>

definition isRun :: "nat \<Rightarrow> nat list \<Rightarrow> RiskWindow \<Rightarrow> bool" where
  "isRun n cs w \<longleftrightarrow>
     w_start w < w_end w \<and> w_end w \<le> length cs \<and>
     (\<forall>i. w_start w \<le> i \<and> i < w_end w \<longrightarrow> elevated n (cs ! i)) \<and>
     (w_end w < length cs \<longrightarrow> \<not> elevated n (cs ! w_end w)) \<and>
     w_count w = sum_list (map ((!) cs) [w_start w..<w_end w])"

text \<open>What a key holds when its data is missing or cannot be read.\<close>

definition missingOrUnreadable :: "error + 'a stored option \<Rightarrow> bool" where
  "missingOrUnreadable item =
     (case item of
        Inl e \<Rightarrow> True
      | Inr None \<Rightarrow> True
      | Inr (Some EmptyText) \<Rightarrow> True
      | Inr (Some Garbage) \<Rightarrow> True
      | Inr (Some (Json v)) \<Rightarrow> False)"

subsection \<open>Sample inputs\<close>

definition logAt :: "int \<Rightarrow> RelapseLog" where
  "logAt t = \<lparr>rl_id = ''log'', rl_timestamp = t, rl_replacementAction = physical, rl_journalEntry = None\<rparr>"

text \<open>
  Monday 2024-03-11 at 12:00 New York time (16:00Z), and a log of Saturday 2024-03-09 at
  12:00 New York time (17:00Z). The clocks went forward on the Sunday between.
\<close>

definition nyNow :: int where
  "nyNow = 1710172800000"

definition nyLog :: RelapseLog where
  "nyLog = logAt 1710003600000"





text \<open>Five logs between 02:00 and 02:05 UTC and five between 03:00 and 03:05 UTC.\<close>

definition nightLogs :: "RelapseLog list" where
  "nightLogs = map logAt
     [1710122400000, 1710122460000, 1710122520000, 1710122580000, 1710122640000,
      1710126000000, 1710126060000, 1710126120000, 1710126180000, 1710126240000]"

text \<open>Two logs just after 23:00 UTC.\<close>

definition lateLogs :: "RelapseLog list" where
  "lateLogs = map logAt [1710198000000, 1710198060000]"



definition emptyStore :: store where
  "emptyStore = \<lparr>RELAPSE_LOGS = Inr None, FOCUS_SESSIONS = Inr None, JOURNAL_ENTRIES = Inr None\<rparr>"

definition brokenStore :: store where
  "brokenStore =
     \<lparr>RELAPSE_LOGS = Inl StorageError, FOCUS_SESSIONS = Inr (Some Garbage), JOURNAL_ENTRIES = Inr None\<rparr>"

definition firstFresh :: fresh where
  "firstFresh = \<lparr>idNow = 1710172800000, idRandom = ''k3x9q2m1z'', stampNow = 1710172800000\<rparr>"

definition secondFresh :: fresh where
  "secondFresh = \<lparr>idNow = 1710172800002, idRandom = ''p0d4w7c5n'', stampNow = 1710172800002\<rparr>"

section \<open>Properties\<close>

subsection \<open>Lock policy\<close>

text \<open>
  C4. For every settings value and every streak, the settings are not locked when
  \<open>isFirstSetup\<close> is true, whatever the streak; when it is false they are locked exactly
  when the streak is below \<open>unlockThreshold\<close>. With threshold 7, streak 6 is locked and
  streak 7 is not.
\<close>

theorem isSettingsLocked_policy:
  "(isFirstSetup s \<longrightarrow> \<not> isSettingsLocked (Some s) streak) \<and>
   (\<not> isFirstSetup s \<longrightarrow> (isSettingsLocked (Some s) streak \<longleftrightarrow> streak < unlockThreshold s)) \<and>
   (\<not> isFirstSetup s \<and> unlockThreshold s = 7 \<longrightarrow>
      isSettingsLocked (Some s) 6 \<and> \<not> isSettingsLocked (Some s) 7)"
  by (simp add: isSettingsLocked_def)

theorem isSettingsLocked_policy_witness:
  "\<not> isSettingsLocked (Some \<lparr>focusDuration = 30, unlockThreshold = 7, isFirstSetup = True\<rparr>) 0 \<and>
   isSettingsLocked (Some \<lparr>focusDuration = 30, unlockThreshold = 7, isFirstSetup = False\<rparr>) 6 \<and>
   \<not> isSettingsLocked (Some \<lparr>focusDuration = 30, unlockThreshold = 7, isFirstSetup = False\<rparr>) 7"
  using isSettingsLocked_policy
          [of "\<lparr>focusDuration = 30, unlockThreshold = 7, isFirstSetup = True\<rparr>" 0]
        isSettingsLocked_policy
          [of "\<lparr>focusDuration = 30, unlockThreshold = 7, isFirstSetup = False\<rparr>" 6]
  by simp

subsection \<open>The comparator sort\<close>

text \<open>
  With a comparator that subtracts an integer key, \<open>sortBy\<close> is the library's stable
  insertion sort on the negated key.
\<close>

lemma insertBy_insort:
  fixes k :: "'a \<Rightarrow> int"
  shows "insertBy (\<lambda>a b. k b - k a) x xs = insort_key (\<lambda>x. - k x) x xs"
  by (induction xs) auto

lemma sortBy_sort_key:
  fixes k :: "'a \<Rightarrow> int"
  shows "sortBy (\<lambda>a b. k b - k a) xs = sort_key (\<lambda>x. - k x) xs"
  by (induction xs) (auto simp: insertBy_insort)

lemma sortBy_set:
  fixes k :: "'a \<Rightarrow> int"
  shows "set (sortBy (\<lambda>a b. k b - k a) xs) = set xs"
  by (simp add: sortBy_sort_key)

lemma sortBy_descending:
  fixes k :: "'a \<Rightarrow> int"
  shows "sorted_wrt (\<lambda>a b. k b \<le> k a) (sortBy (\<lambda>a b. k b - k a) xs)"
proof -
  have "sorted (map (\<lambda>x. - k x) (sort_key (\<lambda>x. - k x) xs))"
    by (rule sorted_sort_key)
  then show ?thesis
    by (simp add: sortBy_sort_key sorted_map)
qed

lemma insertBy_ties:
  fixes k :: "'a \<Rightarrow> int"
  assumes "sorted_wrt (\<lambda>a b. k a = k b \<longrightarrow> R a b) ys" and "\<forall>y \<in> set ys. R x y"
  shows "sorted_wrt (\<lambda>a b. k a = k b \<longrightarrow> R a b) (insertBy (\<lambda>a b. k b - k a) x ys)"
  using assms
proof (induction ys)
  case Nil
  then show ?case by simp
next
  case (Cons y ys)
  then show ?case
    by (auto simp: insertBy_insort set_insort_key)
qed

text \<open>Elements with equal keys keep the order they had before the sort.\<close>

lemma sortBy_ties:
  fixes k :: "'a \<Rightarrow> int"
  assumes "sorted_wrt R xs"
  shows "sorted_wrt (\<lambda>a b. k a = k b \<longrightarrow> R a b) (sortBy (\<lambda>a b. k b - k a) xs)"
  using assms
proof (induction xs)
  case Nil
  then show ?case by simp
next
  case (Cons x xs)
  then show ?case
    using insertBy_ties [of k R "sortBy (\<lambda>a b. k b - k a) xs" x]
    by (simp add: sortBy_set)
qed

lemma sorted_wrt_irrefl_distinct:
  assumes "sorted_wrt R xs" and "\<And>x. \<not> R x x"
  shows "distinct xs"
  using assms by (induction xs) auto

lemma sortBy_head:
  fixes k :: "'a \<Rightarrow> int"
  assumes "xs \<noteq> []"
  shows "\<exists>x rest. sortBy (\<lambda>a b. k b - k a) xs = x # rest \<and> x \<in> set xs \<and> k x = Max (k ` set xs)"
proof -
  let ?s = "sortBy (\<lambda>a b. k b - k a) xs"
  have set: "set ?s = set xs" by (rule sortBy_set)
  with assms obtain x rest where s: "?s = x # rest" by (cases ?s) auto
  have x: "x \<in> set xs" using set s by auto
  have "\<forall>y \<in> set rest. k y \<le> k x"
    using sortBy_descending [of k xs] s by simp
  then have "\<forall>y \<in> set xs. k y \<le> k x" using set s by auto
  then have "Max (k ` set xs) = k x"
    using x by (intro Max_eqI) auto
  with s x show ?thesis by auto
qed

subsection \<open>Streak\<close>

text \<open>The streak is computed from the log with the greatest timestamp.\<close>

lemma getCurrentStreak_latest:
  assumes "logs \<noteq> []"
  shows "getCurrentStreak z now logs =
    (localMidnight z now 0 - localMidnight z (Max (rl_timestamp ` set logs)) 0) div msPerDay"
proof -
  obtain x rest where "sortBy (\<lambda>a b. rl_timestamp b - rl_timestamp a) logs = x # rest"
    and "rl_timestamp x = Max (rl_timestamp ` set logs)"
    using sortBy_head [OF assms, of rl_timestamp] by blast
  with assms show ?thesis
    by (simp add: getCurrentStreak_def msPerDay_def)
qed

lemma getCurrentStreak_empty: "getCurrentStreak z now [] = 0"
  by (simp add: getCurrentStreak_def)

text \<open>
  Where the offset never changes, all days have 24 hours and the streak is the difference
  of the two calendar days.
\<close>

lemma getCurrentStreak_fixedZone:
  assumes "logs \<noteq> []"
  shows "getCurrentStreak (fixedZone off) now logs =
    localDay (fixedZone off) now - localDay (fixedZone off) (Max (rl_timestamp ` set logs))"
proof -
  let ?z = "fixedZone off" and ?t = "Max (rl_timestamp ` set logs)"
  have "localMidnight ?z now 0 - localMidnight ?z ?t 0 = (localDay ?z now - localDay ?z ?t) * msPerDay"
    by (simp add: localMidnight_def UTC_def fixedZone_def algebra_simps)
  then show ?thesis
    by (simp add: getCurrentStreak_latest [OF assms] msPerDay_def)
qed

text \<open>
  C1. getCurrentStreak is to return the number of whole calendar days from the local date
  of the most recent log to the local date of now: \<open>n\<close> when the log's date is \<open>n\<close> days
  before today. It divides the distance between the two local midnights by 24 hours and
  rounds down, so a 23-hour day in between loses a day: in New York, from Saturday
  2024-03-09 to Monday 2024-03-11 the dates are 2 days apart, the midnights 47 hours, and
  the streak is 1.
\<close>

theorem getCurrentStreak_spring_forward:
  "localDay newYork2024 nyNow - localDay newYork2024 (rl_timestamp nyLog) = 2 \<and>
   getCurrentStreak newYork2024 nyNow [nyLog] = 1"
  by (simp add: getCurrentStreak_def nyNow_def nyLog_def logAt_def localMidnight_def localDay_def
      Day_def LocalTime_def UTC_def newYork2024_def msPerDay_def msPerHour_def)

lemma orderedMidnights_less:
  assumes "orderedMidnights z"
  shows "UTC z (d * msPerDay) < UTC z (e * msPerDay) \<longleftrightarrow> d < e"
proof
  assume lt: "UTC z (d * msPerDay) < UTC z (e * msPerDay)"
  show "d < e"
  proof (rule ccontr)
    assume "\<not> d < e"
    then consider "e < d" | "e = d" by fastforce
    then show False
    proof cases
      case 1
      then have "UTC z (e * msPerDay) < UTC z (d * msPerDay)"
        using assms unfolding orderedMidnights_def by blast
      with lt show False by simp
    next
      case 2
      with lt show False by simp
    qed
  qed
next
  assume "d < e"
  then show "UTC z (d * msPerDay) < UTC z (e * msPerDay)"
    using assms unfolding orderedMidnights_def by blast
qed

lemma orderedMidnights_fixedZone: "orderedMidnights (fixedZone off)"
  by (simp add: orderedMidnights_def fixedZone_def UTC_def msPerDay_def)

lemma getCurrentStreak_negative_iff:
  assumes "orderedMidnights z" "logs \<noteq> []"
  shows "getCurrentStreak z now logs < 0 \<longleftrightarrow>
         localDay z now < localDay z (Max (rl_timestamp ` set logs))"
proof -
  let ?t = "Max (rl_timestamp ` set logs)"
  have "getCurrentStreak z now logs < 0 \<longleftrightarrow> localMidnight z now 0 - localMidnight z ?t 0 < 0"
    by (simp add: getCurrentStreak_latest [OF assms(2)] msPerDay_def pos_imp_zdiv_neg_iff)
  also have "\<dots> \<longleftrightarrow> localDay z now < localDay z ?t"
    using orderedMidnights_less [OF assms(1), of "localDay z now" "localDay z ?t"]
    by (simp add: localMidnight_def)
  finally show ?thesis .
qed

text \<open>
  C10. The streak is negative exactly when the most recent log lies on a local calendar
  day after the day of now; so it is non-negative when every log falls on or before that
  day, and for some non-empty list with its most recent log on a later day the streak is
  negative (in UTC: a log of the next day).
\<close>

theorem getCurrentStreak_future_negative:
  "(orderedMidnights z \<and> logs \<noteq> [] \<longrightarrow>
      (getCurrentStreak z now logs < 0 \<longleftrightarrow>
         localDay z now < localDay z (Max (rl_timestamp ` set logs)))) \<and>
   (orderedMidnights z \<and> (\<forall>l \<in> set logs. localDay z (rl_timestamp l) \<le> localDay z now) \<longrightarrow>
      0 \<le> getCurrentStreak z now logs) \<and>
   (\<exists>t ls. ls \<noteq> [] \<and> localDay utcZone t < localDay utcZone (Max (rl_timestamp ` set ls)) \<and>
      getCurrentStreak utcZone t ls < 0)"
proof (intro conjI impI)
  assume "orderedMidnights z \<and> logs \<noteq> []"
  then show "getCurrentStreak z now logs < 0 \<longleftrightarrow>
      localDay z now < localDay z (Max (rl_timestamp ` set logs))"
    using getCurrentStreak_negative_iff by blast
next
  assume a: "orderedMidnights z \<and> (\<forall>l \<in> set logs. localDay z (rl_timestamp l) \<le> localDay z now)"
  show "0 \<le> getCurrentStreak z now logs"
  proof (cases "logs = []")
    case True
    then show ?thesis by (simp add: getCurrentStreak_empty)
  next
    case False
    then have "Max (rl_timestamp ` set logs) \<in> rl_timestamp ` set logs"
      by (intro Max_in) auto
    then have "localDay z (Max (rl_timestamp ` set logs)) \<le> localDay z now"
      using a by auto
    then show ?thesis
      using getCurrentStreak_negative_iff [of z logs now] a False by auto
  qed
next
  have "[logAt 1710205200000] \<noteq> [] \<and>
        localDay utcZone nyNow < localDay utcZone (Max (rl_timestamp ` set [logAt 1710205200000])) \<and>
        getCurrentStreak utcZone nyNow [logAt 1710205200000] < 0"
    by (simp add: getCurrentStreak_def nyNow_def logAt_def localMidnight_def localDay_def
        Day_def LocalTime_def UTC_def utcZone_def fixedZone_def msPerDay_def)
  then show "\<exists>t ls. ls \<noteq> [] \<and> localDay utcZone t < localDay utcZone (Max (rl_timestamp ` set ls)) \<and>
      getCurrentStreak utcZone t ls < 0"
    by blast
qed

theorem getCurrentStreak_future_negative_witness:
  "orderedMidnights utcZone \<and>
   localDay utcZone nyNow < localDay utcZone (Max (rl_timestamp ` set [logAt 1710205200000])) \<and>
   getCurrentStreak utcZone nyNow [logAt 1710205200000] < 0"
proof -
  have o: "orderedMidnights utcZone"
    unfolding utcZone_def by (rule orderedMidnights_fixedZone)
  have d: "localDay utcZone nyNow < localDay utcZone (Max (rl_timestamp ` set [logAt 1710205200000]))"
    by (simp add: nyNow_def logAt_def localDay_def Day_def LocalTime_def utcZone_def fixedZone_def
        msPerDay_def)
  from getCurrentStreak_future_negative [of utcZone "[logAt 1710205200000]" nyNow] o d
  show ?thesis by blast
qed

subsection \<open>Today's count\<close>

lemma same_day_iff:
  fixes D :: int
  assumes "0 < D"
  shows "(q * D \<le> x \<and> x < q * D + D) \<longleftrightarrow> x div D = q"
proof
  assume b: "q * D \<le> x \<and> x < q * D + D"
  define r where "r = x - q * D"
  have r: "0 \<le> r" "r < D" using b by (simp_all add: r_def)
  have "x = q * D + r" by (simp add: r_def)
  then have "x div D = q + r div D" using assms by simp
  with r show "x div D = q" by (simp add: div_pos_pos_trivial)
next
  assume "x div D = q"
  moreover have "x = D * (x div D) + x mod D" by simp
  moreover have "0 \<le> x mod D" "x mod D < D" using assms by simp_all
  ultimately show "q * D \<le> x \<and> x < q * D + D"
    by (metis add.commute add_less_cancel_left le_add_same_cancel1 mult.commute)
qed

text \<open>In a zone with one offset, the interval of today holds the instants of today's date.\<close>

lemma today_interval_fixedZone:
  "(localMidnight (fixedZone off) now 0 \<le> t \<and> t < localMidnight (fixedZone off) now 0 + 86400000)
     \<longleftrightarrow> localDay (fixedZone off) t = localDay (fixedZone off) now"
  using same_day_iff [of msPerDay "(now + off) div msPerDay" "t + off"]
  by (simp add: localMidnight_def localDay_def Day_def LocalTime_def UTC_def fixedZone_def msPerDay_def)
     linarith

text \<open>
  The count is that of the half-open interval of 24 hours from local midnight of now's
  day; in a zone with one offset these are the logs of now's calendar day.
\<close>

lemma getTodayRelapseCount_interval:
  "getTodayRelapseCount z now logs =
     countIn logs (localMidnight z now 0) (localMidnight z now 0 + 24 * msPerHour) \<and>
   getTodayRelapseCount z now [logAt (localMidnight z now 0 + (23 * 3600 + 59 * 60 + 59) * 1000)] = 1 \<and>
   getTodayRelapseCount z now [logAt (localMidnight z now 0 + 24 * msPerHour)] = 0 \<and>
   getTodayRelapseCount (fixedZone off) now logs =
     length (filter (\<lambda>l. localDay (fixedZone off) (rl_timestamp l) = localDay (fixedZone off) now) logs)"
  by (simp add: getTodayRelapseCount_def countIn_def msPerHour_def logAt_def Let_def
      today_interval_fixedZone)

lemma getTodayRelapseCount_utc_sample:
  "getTodayRelapseCount utcZone nyNow [logAt 1710201599000, logAt 1710201600000] = 1"
proof -
  have "localMidnight utcZone nyNow 0 = 1710115200000"
    by (simp add: nyNow_def localMidnight_def localDay_def Day_def LocalTime_def UTC_def utcZone_def
        fixedZone_def msPerDay_def)
  then show ?thesis
    using getTodayRelapseCount_interval
            [of utcZone nyNow "[logAt 1710201599000, logAt 1710201600000]"]
    by (simp add: countIn_def logAt_def msPerHour_def)
qed


subsection \<open>Weekly pattern\<close>






subsection \<open>Hourly counts\<close>

lemma getHours_less: "getHours z t < 24"
  by (simp add: getHours_def nat_less_iff)

lemma hourCounts_length: "length (hourCounts z logs) = 24"
proof -
  have "\<And>cs :: nat list. length (foldl (\<lambda>cs log. let h = getHours z (rl_timestamp log) in cs[h := cs ! h + 1]) cs logs) = length cs"
    by (induction logs) (simp_all add: Let_def)
  then show ?thesis by (simp add: hourCounts_def)
qed

text \<open>Every log is counted in one hour.\<close>

lemma hourCounts_sum: "sum_list (hourCounts z logs) = length logs"
proof -
  have "\<And>cs :: nat list. length cs = 24 \<Longrightarrow>
      sum_list (foldl (\<lambda>cs log. let h = getHours z (rl_timestamp log) in cs[h := cs ! h + 1]) cs logs)
        = sum_list cs + length logs"
  proof (induction logs)
    case Nil
    then show ?case by simp
  next
    case (Cons l logs)
    have "sum_list (cs[getHours z (rl_timestamp l) := cs ! getHours z (rl_timestamp l) + 1]) = sum_list cs + 1"
      using Cons.prems getHours_less [of z "rl_timestamp l"]
      by (simp add: sum_list_update)
    with Cons show ?case by (simp add: Let_def)
  qed
  from this [of "replicate 24 0"] show ?thesis
    by (simp add: hourCounts_def sum_list_replicate)
qed

subsection \<open>The scan builds the maximal runs\<close>

lemma riskStep_elevated:
  "riskStep (of_nat n / 24) st \<lparr>hc_hour = h, hc_count = c\<rparr> =
     (case st of (rw, cur) \<Rightarrow>
        if elevated n c then
          (case cur of
             Some w \<Rightarrow> if h = w_end w then (rw, Some (w\<lparr>w_end := h + 1, w_count := w_count w + c\<rparr>))
                       else (rw @ [w], Some \<lparr>w_start = h, w_end = h + 1, w_count = c\<rparr>)
           | None \<Rightarrow> (rw, Some \<lparr>w_start = h, w_end = h + 1, w_count = c\<rparr>))
        else (case cur of Some w \<Rightarrow> (rw @ [w], None) | None \<Rightarrow> (rw, None)))"
  by (cases st) (auto simp: riskStep_def elevated_def split: option.splits)

lemma pattern_Nil: "pattern h [] = []"
  by (simp add: pattern_def)

lemma pattern_Cons: "pattern h (c # cs) = \<lparr>hc_hour = h, hc_count = c\<rparr> # pattern (Suc h) cs"
  by (simp add: pattern_def)

text \<open>
  From a state whose current window ends at the next hour, the scan extends that window
  over the elevated hours that follow and then goes on as from a state with no window.
\<close>

lemma scan_merged:
  "(w_end w = h \<longrightarrow>
      closeWindow (foldl (riskStep (of_nat n / 24)) (rw, Some w) (pattern h cs)) =
        rw @ w\<lparr>w_end := h + length (takeWhile (elevated n) cs),
                w_count := w_count w + sum_list (takeWhile (elevated n) cs)\<rparr>
           # mergedWindows n (h + length (takeWhile (elevated n) cs)) (dropWhile (elevated n) cs)) \<and>
   closeWindow (foldl (riskStep (of_nat n / 24)) (rw, None) (pattern h cs)) = rw @ mergedWindows n h cs"
proof (induction cs arbitrary: rw w h)
  case Nil
  show ?case by (auto simp: closeWindow_def pattern_Nil)
next
  case (Cons c cs)
  show ?case
  proof (cases "elevated n c")
    case True
    then show ?thesis
      using Cons.IH [of "w\<lparr>w_end := h + 1, w_count := w_count w + c\<rparr>" "Suc h" rw]
            Cons.IH [of "\<lparr>w_start = h, w_end = h + 1, w_count = c\<rparr>" "Suc h" rw]
      by (simp add: riskStep_elevated pattern_Cons add.assoc)
  next
    case False
    then show ?thesis
      using Cons.IH [of w "Suc h" "rw @ [w]"] Cons.IH [of w "Suc h" rw]
      by (simp add: riskStep_elevated pattern_Cons)
  qed
qed

lemma scanWindows_closeWindow:
  "scanWindows a p = closeWindow (foldl (riskStep a) ([], None) p)"
  by (simp add: scanWindows_def closeWindow_def)

lemma scanWindows_merged:
  "scanWindows (if length logs > 0 then of_nat (length logs) / 24 else 0) (getHourlyPattern z logs)
     = mergedWindows (length logs) 0 (hourCounts z logs)"
proof -
  have avg: "(if length logs > 0 then of_nat (length logs) / 24 else 0) = (of_nat (length logs) / 24 :: rat)"
    by simp
  have pat: "getHourlyPattern z logs = pattern 0 (hourCounts z logs)"
    by (simp add: getHourlyPattern_def pattern_def)
  have "closeWindow (foldl (riskStep (of_nat (length logs) / 24)) ([], None) (pattern 0 (hourCounts z logs)))
        = [] @ mergedWindows (length logs) 0 (hourCounts z logs)"
    using scan_merged [of undefined 0 "length logs" "[]" "hourCounts z logs"] by (rule conjunct2)
  then show ?thesis
    by (simp only: avg pat scanWindows_closeWindow append_Nil)
qed

lemma getRiskWindows_sorted_merged:
  "getRiskWindows z logs =
     sortBy (\<lambda>a b. int (w_count b) - int (w_count a)) (mergedWindows (length logs) 0 (hourCounts z logs))"
  unfolding getRiskWindows_def Let_def by (simp only: scanWindows_merged)

lemma getRiskWindows_set:
  "set (getRiskWindows z logs) = set (mergedWindows (length logs) 0 (hourCounts z logs))"
  using sortBy_set [of "\<lambda>w. int (w_count w)"]
  by (simp add: getRiskWindows_sorted_merged)

subsection \<open>What the maximal runs are\<close>

lemma mergedWindows_bounds:
  "w \<in> set (mergedWindows n h cs) \<Longrightarrow> h \<le> w_start w \<and> w_start w < w_end w \<and> w_end w \<le> h + length cs"
proof (induction n h cs rule: mergedWindows.induct)
  case (1 n h)
  then show ?case by simp
next
  case (2 n h c cs)
  have len: "length (takeWhile (elevated n) cs) + length (dropWhile (elevated n) cs) = length cs"
    by (metis length_append takeWhile_dropWhile_id)
  show ?case
  proof (cases "elevated n c")
    case True
    with 2 len show ?thesis by (auto simp: le_imp_less_Suc)
  next
    case False
    with 2 show ?thesis by auto
  qed
qed

lemma mergedWindows_ascending:
  "sorted_wrt (\<lambda>a b. w_start a < w_start b) (mergedWindows n h cs)"
proof (induction n h cs rule: mergedWindows.induct)
  case (1 n h)
  then show ?case by simp
next
  case (2 n h c cs)
  show ?case
  proof (cases "elevated n c")
    case True
    have "\<forall>w \<in> set (mergedWindows n (h + 1 + length (takeWhile (elevated n) cs)) (dropWhile (elevated n) cs)). h < w_start w"
      using mergedWindows_bounds by fastforce
    with 2 True show ?thesis by simp
  next
    case False
    with 2 show ?thesis by simp
  qed
qed

lemma map_nth_slice:
  "a + k \<le> length xs \<Longrightarrow> map ((!) xs) [a..<a + k] = take k (drop a xs)"
  by (rule nth_equalityI) auto

text \<open>
  The list \<open>full\<close> from index \<open>h\<close> on is \<open>c # cs\<close>: what the run of \<open>P\<close> after \<open>c\<close> is
  in terms of the indices of \<open>full\<close>.
\<close>

lemma run_facts:
  assumes d: "drop h full = c # cs"
  shows "h < length full"
    and "full ! h = c"
    and "drop (Suc h) full = cs"
    and "drop (h + 1 + length (takeWhile P cs)) full = dropWhile P cs"
    and "h + 1 + length (takeWhile P cs) \<le> length full"
    and "\<forall>i. h < i \<and> i < h + 1 + length (takeWhile P cs) \<longrightarrow> P (full ! i)"
    and "h + 1 + length (takeWhile P cs) < length full \<longrightarrow> \<not> P (full ! (h + 1 + length (takeWhile P cs)))"
    and "sum_list (map ((!) full) [h..<h + 1 + length (takeWhile P cs)]) = c + sum_list (takeWhile P cs)"
proof -
  let ?k = "length (takeWhile P cs)"
  show h: "h < length full" using d by (cases "h < length full") auto
  show c: "full ! h = c" using d by (rule nth_via_drop)
  show cs: "drop (Suc h) full = cs"
    by (metis d drop_Suc list.sel(3) tl_drop)
  have len: "length cs = length full - Suc h" using cs by auto
  have k: "?k \<le> length cs" by (rule length_takeWhile_le)
  have "dropWhile P cs = drop ?k cs" by (rule dropWhile_eq_drop)
  also have "\<dots> = drop ?k (drop (Suc h) full)" by (simp only: cs)
  also have "\<dots> = drop (h + 1 + ?k) full" by (simp add: add.commute)
  finally show "drop (h + 1 + ?k) full = dropWhile P cs" by simp
  show le: "h + 1 + ?k \<le> length full" using h k len by simp
  have nth: "\<And>j. j < length cs \<Longrightarrow> full ! (Suc h + j) = cs ! j"
    using cs h by (metis Suc_leI nth_drop)
  show "\<forall>i. h < i \<and> i < h + 1 + ?k \<longrightarrow> P (full ! i)"
  proof (intro allI impI)
    fix i assume i: "h < i \<and> i < h + 1 + ?k"
    then have j: "i - Suc h < ?k" by linarith
    then have "takeWhile P cs ! (i - Suc h) \<in> set (takeWhile P cs)" by simp
    then have "P (takeWhile P cs ! (i - Suc h))" by (auto dest: set_takeWhileD)
    then have "P (cs ! (i - Suc h))" using j by (simp add: takeWhile_nth)
    moreover have "full ! (Suc h + (i - Suc h)) = cs ! (i - Suc h)"
      using j k by (intro nth) simp
    ultimately show "P (full ! i)" using i by simp
  qed
  show "h + 1 + ?k < length full \<longrightarrow> \<not> P (full ! (h + 1 + ?k))"
  proof
    assume "h + 1 + ?k < length full"
    then have lt: "?k < length cs" using len by simp
    then have "\<not> P (cs ! ?k)" by (rule nth_length_takeWhile)
    then show "\<not> P (full ! (h + 1 + ?k))" using nth [OF lt] by simp
  qed
  have "map ((!) full) [Suc h..<Suc h + ?k] = take ?k (drop (Suc h) full)"
    using le by (intro map_nth_slice) simp
  also have "\<dots> = take ?k cs" by (simp only: cs)
  also have "\<dots> = takeWhile P cs" by (rule takeWhile_eq_take [symmetric])
  finally have tw: "map ((!) full) [Suc h..<Suc h + ?k] = takeWhile P cs" .
  have "[h..<Suc h + ?k] = h # [Suc h..<Suc h + ?k]"
    by (rule upt_conv_Cons) simp
  moreover have "h + 1 + ?k = Suc h + ?k" by simp
  ultimately have "[h..<h + 1 + ?k] = h # [Suc h..<Suc h + ?k]"
    by (simp only:)
  then have "map ((!) full) [h..<h + 1 + ?k] = c # takeWhile P cs"
    by (simp only: list.map tw c)
  then show "sum_list (map ((!) full) [h..<h + 1 + ?k]) = c + sum_list (takeWhile P cs)"
    by (simp only: sum_list.Cons)
qed

text \<open>
  Every window of \<open>mergedWindows\<close> is a run of elevated hours with the sum of their
  counts, and the hour before it, like the hour after it, is not elevated.
\<close>

lemma mergedWindows_runs:
  assumes "drop h full = cs" and "w \<in> set (mergedWindows n h cs)"
  shows "h \<le> w_start w \<and> isRun n full w \<and> (h < w_start w \<longrightarrow> \<not> elevated n (full ! (w_start w - 1)))"
  using assms
proof (induction n h cs rule: mergedWindows.induct)
  case (1 n h)
  then show ?case by simp
next
  case (2 n h c cs)
  let ?k = "length (takeWhile (elevated n) cs)"
  note rf = run_facts [OF "2.prems"(1)]
  show ?case
  proof (cases "elevated n c")
    case True
    show ?thesis
    proof (cases "w = \<lparr>w_start = h, w_end = h + 1 + ?k, w_count = c + sum_list (takeWhile (elevated n) cs)\<rparr>")
      case w: True
      have "\<forall>i. h \<le> i \<and> i < h + 1 + ?k \<longrightarrow> elevated n (full ! i)"
        using rf(2) rf(6) True by (metis le_neq_implies_less)
      then show ?thesis
        using rf w by (simp add: isRun_def)
    next
      case False
      then have mem: "w \<in> set (mergedWindows n (h + 1 + ?k) (dropWhile (elevated n) cs))"
        using "2.prems"(2) True by simp
      have ih: "h + 1 + ?k \<le> w_start w \<and> isRun n full w \<and>
            (h + 1 + ?k < w_start w \<longrightarrow> \<not> elevated n (full ! (w_start w - 1)))"
        using "2.IH"(1) [OF True rf(4) mem] .
      have "w_start w < length full" using ih by (simp add: isRun_def)
      moreover have "elevated n (full ! w_start w)" using ih by (simp add: isRun_def)
      ultimately have "w_start w \<noteq> h + 1 + ?k" using rf(7) [of "elevated n"] by auto
      with ih show ?thesis by simp
    qed
  next
    case False
    then have mem: "w \<in> set (mergedWindows n (h + 1) cs)"
      using "2.prems"(2) by simp
    have ih: "h + 1 \<le> w_start w \<and> isRun n full w \<and>
            (h + 1 < w_start w \<longrightarrow> \<not> elevated n (full ! (w_start w - 1)))"
      using "2.IH"(2) [OF False _ mem] rf(3) by simp
    show ?thesis
    proof (cases "w_start w = h + 1")
      case True
      then show ?thesis using ih False rf(2) by simp
    next
      case False
      then show ?thesis using ih by simp
    qed
  qed
qed

text \<open>Every elevated hour lies in a window.\<close>

lemma mergedWindows_cover:
  assumes "drop h full = cs" and "h \<le> i" and "i < length full" and "elevated n (full ! i)"
  shows "\<exists>w \<in> set (mergedWindows n h cs). w_start w \<le> i \<and> i < w_end w"
  using assms
proof (induction n h cs rule: mergedWindows.induct)
  case (1 n h)
  then show ?case by simp
next
  case (2 n h c cs)
  let ?k = "length (takeWhile (elevated n) cs)"
  note rf = run_facts [OF "2.prems"(1)]
  show ?case
  proof (cases "elevated n c")
    case True
    show ?thesis
    proof (cases "i < h + 1 + ?k")
      case True
      with \<open>elevated n c\<close> "2.prems"(2) show ?thesis by simp
    next
      case False
      then have "h + 1 + ?k \<le> i" by simp
      from "2.IH"(1) [OF True rf(4) this "2.prems"(3,4)] True
      show ?thesis by auto
    qed
  next
    case False
    then have "i \<noteq> h" using rf(2) "2.prems"(4) by auto
    then have "h + 1 \<le> i" using "2.prems"(2) by simp
    from "2.IH"(2) [OF False _ this "2.prems"(3,4)] rf(3) False
    show ?thesis by auto
  qed
qed

subsection \<open>Risk windows\<close>

lemma getRiskWindows_two_hours:
  assumes "hourCounts z logs = [0, 0, 5, 5] @ replicate 20 0"
  shows "getRiskWindows z logs = [\<lparr>w_start = 2, w_end = 4, w_count = 10\<rparr>]"
proof -
  have "length logs = 10"
    using hourCounts_sum [of z logs] assms by (simp add: sum_list_replicate)
  then show ?thesis
    using scanWindows_merged [of logs z] assms
    by (simp add: getRiskWindows_def elevated_def numeral_eq_Suc)
qed

text \<open>
  C2. For every list of logs, with the hourly counts of getHourlyPattern: an hour is
  elevated when its count exceeds (number of logs / 24) * 1.5 and is at least 2. The
  windows of getRiskWindows cover exactly the elevated hours; each window is a run of
  adjacent elevated hours that neither the hour before nor the hour after continues, and
  its count is the sum of the counts of its hours; the windows come by count descending,
  windows of equal count in ascending hour order, and no window twice. For the hourly counts
  [0,0,5,5,0,...,0] the result is the single window from 2 to 4 with count 10.
\<close>

theorem getRiskWindows_runs_sorted:
  "(\<forall>h<24. elevated (length logs) (hourCounts z logs ! h) \<longleftrightarrow>
        (\<exists>w \<in> set (getRiskWindows z logs). w_start w \<le> h \<and> h < w_end w)) \<and>
   (\<forall>w \<in> set (getRiskWindows z logs).
        isRun (length logs) (hourCounts z logs) w \<and> w_end w \<le> 24 \<and>
        (0 < w_start w \<longrightarrow> \<not> elevated (length logs) (hourCounts z logs ! (w_start w - 1)))) \<and>
   sorted_wrt (\<lambda>a b. w_count b \<le> w_count a) (getRiskWindows z logs) \<and>
   sorted_wrt (\<lambda>a b. w_count a = w_count b \<longrightarrow> w_start a < w_start b) (getRiskWindows z logs) \<and>
   distinct (getRiskWindows z logs) \<and>
   (hourCounts z logs = [0, 0, 5, 5] @ replicate 20 0 \<longrightarrow>
      getRiskWindows z logs = [\<lparr>w_start = 2, w_end = 4, w_count = 10\<rparr>])"
proof -
  let ?n = "length logs" and ?cs = "hourCounts z logs"
  let ?ws = "mergedWindows ?n 0 ?cs" and ?rs = "getRiskWindows z logs"
  have set: "set ?rs = set ?ws" by (rule getRiskWindows_set)
  have len: "length ?cs = 24" by (rule hourCounts_length)
  have runs: "isRun ?n ?cs w \<and> (0 < w_start w \<longrightarrow> \<not> elevated ?n (?cs ! (w_start w - 1)))"
    if "w \<in> set ?ws" for w
    using mergedWindows_runs [of 0 ?cs ?cs w ?n] that by simp
  have cover: "\<exists>w \<in> set ?ws. w_start w \<le> h \<and> h < w_end w"
    if "h < 24" "elevated ?n (?cs ! h)" for h
    using mergedWindows_cover [of 0 ?cs ?cs h ?n] that len by simp
  have c1: "\<forall>h<24. elevated ?n (?cs ! h) \<longleftrightarrow> (\<exists>w \<in> set ?rs. w_start w \<le> h \<and> h < w_end w)"
  proof (intro allI impI iffI)
    fix h :: nat assume "h < 24" "elevated ?n (?cs ! h)"
    then show "\<exists>w \<in> set ?rs. w_start w \<le> h \<and> h < w_end w"
      using cover set by simp
  next
    fix h :: nat assume "\<exists>w \<in> set ?rs. w_start w \<le> h \<and> h < w_end w"
    then obtain w where "w \<in> set ?ws" "w_start w \<le> h" "h < w_end w" using set by auto
    then show "elevated ?n (?cs ! h)" using runs [of w] by (simp add: isRun_def)
  qed
  have c2: "\<forall>w \<in> set ?rs. isRun ?n ?cs w \<and> w_end w \<le> 24 \<and>
        (0 < w_start w \<longrightarrow> \<not> elevated ?n (?cs ! (w_start w - 1)))"
    using runs set len by (auto simp: isRun_def)
  have "sorted_wrt (\<lambda>a b. int (w_count b) \<le> int (w_count a)) ?rs"
    using sortBy_descending [of "\<lambda>w. int (w_count w)" ?ws]
    by (simp only: getRiskWindows_sorted_merged)
  then have c3: "sorted_wrt (\<lambda>a b. w_count b \<le> w_count a) ?rs" by simp
  have "sorted_wrt (\<lambda>a b. int (w_count a) = int (w_count b) \<longrightarrow> w_start a < w_start b) ?rs"
    using sortBy_ties [OF mergedWindows_ascending, of "\<lambda>w. int (w_count w)" ?n 0 ?cs]
    by (simp only: getRiskWindows_sorted_merged)
  then have c4: "sorted_wrt (\<lambda>a b. w_count a = w_count b \<longrightarrow> w_start a < w_start b) ?rs" by simp
  have c5: "?cs = [0, 0, 5, 5] @ replicate 20 0 \<longrightarrow> ?rs = [\<lparr>w_start = 2, w_end = 4, w_count = 10\<rparr>]"
    using getRiskWindows_two_hours by blast
  have c6: "distinct ?rs"
    using c4 by (rule sorted_wrt_irrefl_distinct) simp
  from c1 c2 c3 c4 c5 c6 show ?thesis by blast
qed

lemma nightLogs_hours: "hourCounts utcZone nightLogs = [0, 0, 5, 5] @ replicate 20 0"
  by code_simp

theorem getRiskWindows_runs_sorted_witness:
  "hourCounts utcZone nightLogs = [0, 0, 5, 5] @ replicate 20 0 \<and>
   getRiskWindows utcZone nightLogs = [\<lparr>w_start = 2, w_end = 4, w_count = 10\<rparr>]"
  using getRiskWindows_runs_sorted [of nightLogs utcZone] nightLogs_hours by blast

text \<open>
  C9. Every window of getRiskWindows that includes hour 23 ends at 24, and formatHour
  shows 24 as "12 PM", while it shows 0 as "12 AM": the end of a window that reaches
  midnight is displayed as "12 PM".
\<close>

theorem midnight_window_label:
  "(\<forall>w \<in> set (getRiskWindows z logs).
      w_start w \<le> 23 \<and> 23 < w_end w \<longrightarrow> w_end w = 24 \<and> formatHour (int (w_end w)) = ''12 PM'') \<and>
   formatHour 24 = ''12 PM'' \<and> formatHour 0 = ''12 AM''"
proof -
  have f: "formatHour 24 = ''12 PM''" "formatHour 0 = ''12 AM''"
    by (simp_all add: formatHour_def show_int_def show_nat.simps digit_def)
  have b: "w_end w \<le> 24" if "w \<in> set (getRiskWindows z logs)" for w
    using mergedWindows_bounds [of w "length logs" 0 "hourCounts z logs"] that
    by (simp add: getRiskWindows_set hourCounts_length)
  have "w_end w = 24 \<and> formatHour (int (w_end w)) = ''12 PM''"
    if "w \<in> set (getRiskWindows z logs)" "w_start w \<le> 23 \<and> 23 < w_end w" for w
  proof -
    have "w_end w = 24" using b [OF that(1)] that(2) by simp
    then show ?thesis using f(1) by simp
  qed
  with f show ?thesis by blast
qed

lemma lateLogs_windows: "getRiskWindows utcZone lateLogs = [\<lparr>w_start = 23, w_end = 24, w_count = 2\<rparr>]"
  by code_simp

theorem midnight_window_label_witness:
  "\<lparr>w_start = 23, w_end = 24, w_count = 2\<rparr> \<in> set (getRiskWindows utcZone lateLogs) \<and>
   formatHour (int (w_end \<lparr>w_start = 23, w_end = 24, w_count = 2\<rparr>)) = ''12 PM''"
proof -
  have m: "\<lparr>w_start = 23, w_end = 24, w_count = 2\<rparr> \<in> set (getRiskWindows utcZone lateLogs)"
    by (simp add: lateLogs_windows)
  from midnight_window_label [of utcZone lateLogs, THEN conjunct1, THEN bspec, OF m]
  show ?thesis using m by simp
qed

subsection \<open>Reading the stores\<close>

text \<open>
  C8. getRelapseLogs, getFocusSessions and getJournalEntries never end in an error, and
  each returns the empty list when the data of its key is missing or cannot be read:
  \<^verbatim>\<open>getItem\<close> rejects or gives \<open>null\<close>, or the string is empty or is not JSON.
\<close>

theorem list_reads_never_fail:
  "(\<forall>e. getRelapseLogs st \<noteq> Inl e) \<and> (\<forall>e. getFocusSessions st \<noteq> Inl e) \<and>
   (\<forall>e. getJournalEntries st \<noteq> Inl e) \<and>
   (missingOrUnreadable (RELAPSE_LOGS st) \<longrightarrow> getRelapseLogs st = Inr []) \<and>
   (missingOrUnreadable (FOCUS_SESSIONS st) \<longrightarrow> getFocusSessions st = Inr []) \<and>
   (missingOrUnreadable (JOURNAL_ENTRIES st) \<longrightarrow> getJournalEntries st = Inr [])"
  by (auto simp: getRelapseLogs_def getFocusSessions_def getJournalEntries_def try_catch_def
        missingOrUnreadable_def JSON_parse_def truthy_def
      split: sum.splits option.splits stored.splits)

theorem list_reads_never_fail_witness:
  "missingOrUnreadable (RELAPSE_LOGS brokenStore) \<and> getRelapseLogs brokenStore = Inr [] \<and>
   missingOrUnreadable (FOCUS_SESSIONS brokenStore) \<and> getFocusSessions brokenStore = Inr [] \<and>
   missingOrUnreadable (JOURNAL_ENTRIES brokenStore) \<and> getJournalEntries brokenStore = Inr []"
proof -
  have m: "missingOrUnreadable (RELAPSE_LOGS brokenStore)"
    "missingOrUnreadable (FOCUS_SESSIONS brokenStore)"
    "missingOrUnreadable (JOURNAL_ENTRIES brokenStore)"
    by (simp_all add: brokenStore_def missingOrUnreadable_def)
  from list_reads_never_fail [of brokenStore] m show ?thesis by blast
qed

subsection \<open>Completing the writing action\<close>

text \<open>
  C6. Completing the "writing" action with journal text that is not empty after trimming
  appends exactly one relapse log, with action "writing", and exactly one journal entry,
  whose \<open>relapseLogId\<close> is the id of that log; the focus sessions are not touched. With
  text that is empty or only white space the log is appended all the same and the journal
  entries are not touched.
\<close>

theorem handleComplete_writing:
  assumes "getRelapseLogs st = Inr logs" and "getJournalEntries st = Inr entries"
  shows "(trim journalText \<noteq> [] \<longrightarrow>
           getRelapseLogs (handleComplete f g (Some writing) journalText st) =
             Inr (logs @ [\<lparr>rl_id = newId f, rl_timestamp = stampNow f, rl_replacementAction = writing,
                           rl_journalEntry = Some (trim journalText)\<rparr>]) \<and>
           getJournalEntries (handleComplete f g (Some writing) journalText st) =
             Inr (entries @ [\<lparr>je_id = newId g, je_timestamp = stampNow g, je_content = trim journalText,
                              je_relapseLogId = newId f\<rparr>]) \<and>
           FOCUS_SESSIONS (handleComplete f g (Some writing) journalText st) = FOCUS_SESSIONS st) \<and>
         (trim journalText = [] \<longrightarrow>
           getRelapseLogs (handleComplete f g (Some writing) journalText st) =
             Inr (logs @ [\<lparr>rl_id = newId f, rl_timestamp = stampNow f, rl_replacementAction = writing,
                           rl_journalEntry = None\<rparr>]) \<and>
           JOURNAL_ENTRIES (handleComplete f g (Some writing) journalText st) = JOURNAL_ENTRIES st \<and>
           FOCUS_SESSIONS (handleComplete f g (Some writing) journalText st) = FOCUS_SESSIONS st)"
proof -
  have j: "\<And>x. getJournalEntries (st\<lparr>RELAPSE_LOGS := x\<rparr>) = Inr entries"
    using assms(2) by (simp add: getJournalEntries_def)
  have l: "\<And>x y. getRelapseLogs (st\<lparr>RELAPSE_LOGS := Inr (Some (Json x)), JOURNAL_ENTRIES := y\<rparr>) = Inr x"
    "\<And>x. getRelapseLogs (st\<lparr>RELAPSE_LOGS := Inr (Some (Json x))\<rparr>) = Inr x"
    by (simp_all add: getRelapseLogs_def try_catch_def truthy_def JSON_parse_def)
  have e: "\<And>x y. getJournalEntries (st\<lparr>RELAPSE_LOGS := y, JOURNAL_ENTRIES := Inr (Some (Json x))\<rparr>) = Inr x"
    by (simp add: getJournalEntries_def try_catch_def truthy_def JSON_parse_def)
  show ?thesis
    using assms(1) j l e
    by (simp add: handleComplete_def addRelapseLog_def addJournalEntry_def Let_def)
qed

lemma trim_samples: "trim '' trigger noted '' = ''trigger noted''" "trim ''   '' = []"
  by (simp_all add: trim_def isSpace_def)

theorem handleComplete_writing_witness:
  "getRelapseLogs (handleComplete firstFresh secondFresh (Some writing) '' trigger noted '' emptyStore) =
     Inr [\<lparr>rl_id = newId firstFresh, rl_timestamp = 1710172800000, rl_replacementAction = writing,
           rl_journalEntry = Some ''trigger noted''\<rparr>] \<and>
   getJournalEntries (handleComplete firstFresh secondFresh (Some writing) '' trigger noted '' emptyStore) =
     Inr [\<lparr>je_id = newId secondFresh, je_timestamp = 1710172800002, je_content = ''trigger noted'',
           je_relapseLogId = newId firstFresh\<rparr>] \<and>
   FOCUS_SESSIONS (handleComplete firstFresh secondFresh (Some writing) '' trigger noted '' emptyStore) = Inr None \<and>
   getRelapseLogs (handleComplete firstFresh secondFresh (Some writing) ''   '' emptyStore) =
     Inr [\<lparr>rl_id = newId firstFresh, rl_timestamp = 1710172800000, rl_replacementAction = writing,
           rl_journalEntry = None\<rparr>] \<and>
   JOURNAL_ENTRIES (handleComplete firstFresh secondFresh (Some writing) ''   '' emptyStore) = Inr None"
proof -
  have r: "getRelapseLogs emptyStore = Inr []" "getJournalEntries emptyStore = Inr []"
    by (simp_all add: emptyStore_def getRelapseLogs_def getJournalEntries_def try_catch_def)
  have s: "stampNow firstFresh = 1710172800000" "stampNow secondFresh = 1710172800002"
    "FOCUS_SESSIONS emptyStore = Inr None" "JOURNAL_ENTRIES emptyStore = Inr None"
    by (simp_all add: firstFresh_def secondFresh_def emptyStore_def)
  from handleComplete_writing [OF r, of "'' trigger noted ''" firstFresh secondFresh]
       handleComplete_writing [OF r, of "''   ''" firstFresh secondFresh]
  show ?thesis by (simp add: trim_samples s)
qed

subsection \<open>Countdown timers\<close>

lemma focusRun_stopped: "\<not> ft_timer st \<Longrightarrow> focusRun T st ticks = st"
  by (induction ticks) (simp_all add: focusRun_def focusTick_def)

lemma focusRun_Cons: "focusRun T st (now # ticks) = focusRun T (focusTick T now st) ticks"
  by (simp add: focusRun_def)

lemma focusTick_remaining:
  "ft_timer st \<Longrightarrow>
   ft_remainingSeconds (focusTick T now st) = max 0 (T - (now - ft_startTime st) div 1000)"
  by (simp add: focusTick_def Let_def)

text \<open>
  A run of ticks from a state whose interval is registered and that has not completed:
  the first tick at which the duration has elapsed completes it and clears the interval.
\<close>

lemma focusRun_active:
  assumes "ft_timer st" "ft_completions st = 0" "\<not> ft_isComplete st"
  shows "if \<exists>now \<in> set ticks. T \<le> (now - ft_startTime st) div 1000
         then ft_completions (focusRun T st ticks) = 1 \<and> ft_isComplete (focusRun T st ticks) \<and>
              ft_remainingSeconds (focusRun T st ticks) = 0 \<and> \<not> ft_timer (focusRun T st ticks)
         else ft_completions (focusRun T st ticks) = 0 \<and> \<not> ft_isComplete (focusRun T st ticks) \<and>
              ft_timer (focusRun T st ticks)"
  using assms
proof (induction ticks arbitrary: st)
  case Nil
  then show ?case by (simp add: focusRun_def)
next
  case (Cons now ticks)
  show ?case
  proof (cases "T \<le> (now - ft_startTime st) div 1000")
    case True
    then have "focusTick T now st =
        st\<lparr>ft_remainingSeconds := 0, ft_isComplete := True, ft_timer := False, ft_completions := 1\<rparr>"
      using Cons.prems by (simp add: focusTick_def Let_def)
    then show ?thesis
      using True by (simp add: focusRun_Cons focusRun_stopped)
  next
    case False
    define st' where "st' = st\<lparr>ft_remainingSeconds := T - (now - ft_startTime st) div 1000\<rparr>"
    have t: "focusTick T now st = st'"
      using Cons.prems False by (simp add: focusTick_def Let_def max_def st'_def)
    have st': "ft_timer st'" "ft_completions st' = 0" "\<not> ft_isComplete st'"
      "ft_startTime st' = ft_startTime st"
      using Cons.prems by (simp_all add: st'_def)
    show ?thesis
      using Cons.IH [OF st'(1-3)] False
      by (simp add: focusRun_Cons t st'(4))
  qed
qed

lemma focusRun_mounted:
  "if \<exists>now \<in> set ticks. T \<le> (now - t0) div 1000
   then ft_completions (focusRun T (focusMount T t0) ticks) = 1 \<and>
        ft_isComplete (focusRun T (focusMount T t0) ticks) \<and>
        ft_remainingSeconds (focusRun T (focusMount T t0) ticks) = 0
   else ft_completions (focusRun T (focusMount T t0) ticks) = 0 \<and>
        \<not> ft_isComplete (focusRun T (focusMount T t0) ticks)"
  using focusRun_active [of "focusMount T t0" ticks T]
  by (simp add: focusMount_def split: if_splits)

lemma actionRun_stopped: "\<not> at_timer st \<Longrightarrow> actionRun a st ticks = st"
  by (induction ticks) (simp_all add: actionRun_def actionTick_def)

lemma actionRun_Cons: "actionRun a st (now # ticks) = actionRun a (actionTick a now st) ticks"
  by (simp add: actionRun_def)

lemma actionTick_remaining:
  "at_timer st \<Longrightarrow>
   at_remainingSeconds (actionTick a now st) = max 0 (a_duration a - (now - at_startTime st) div 1000)"
  by (simp add: actionTick_def Let_def)

lemma actionRun_active:
  assumes "at_timer st" "at_completions st = 0" "\<not> at_isComplete st"
  shows "if \<exists>now \<in> set ticks. a_duration a \<le> (now - at_startTime st) div 1000
         then at_completions (actionRun a st ticks) = 1 \<and> at_isComplete (actionRun a st ticks) \<and>
              at_remainingSeconds (actionRun a st ticks) = 0 \<and> \<not> at_timer (actionRun a st ticks)
         else at_completions (actionRun a st ticks) = 0 \<and> \<not> at_isComplete (actionRun a st ticks) \<and>
              at_timer (actionRun a st ticks)"
  using assms
proof (induction ticks arbitrary: st)
  case Nil
  then show ?case by (simp add: actionRun_def)
next
  case (Cons now ticks)
  show ?case
  proof (cases "a_duration a \<le> (now - at_startTime st) div 1000")
    case True
    then have "actionTick a now st =
        st\<lparr>at_remainingSeconds := 0, at_isComplete := True, at_timer := False,
           at_breathTimer := False, at_completions := 1\<rparr>"
      using Cons.prems by (simp add: actionTick_def Let_def)
    then show ?thesis
      using True by (simp add: actionRun_Cons actionRun_stopped)
  next
    case False
    define st' where "st' = st\<lparr>at_remainingSeconds := a_duration a - (now - at_startTime st) div 1000\<rparr>"
    have t: "actionTick a now st = st'"
      using Cons.prems False by (simp add: actionTick_def Let_def max_def st'_def)
    have st': "at_timer st'" "at_completions st' = 0" "\<not> at_isComplete st'"
      "at_startTime st' = at_startTime st"
      using Cons.prems by (simp_all add: st'_def)
    show ?thesis
      using Cons.IH [OF st'(1-3)] False
      by (simp add: actionRun_Cons t st'(4))
  qed
qed

lemma actionRun_selected:
  "if \<exists>now \<in> set ticks. a_duration a \<le> (now - t0) div 1000
   then at_completions (actionRun a (handleSelectAction a t0 actionInit) ticks) = 1 \<and>
        at_isComplete (actionRun a (handleSelectAction a t0 actionInit) ticks) \<and>
        at_remainingSeconds (actionRun a (handleSelectAction a t0 actionInit) ticks) = 0
   else at_completions (actionRun a (handleSelectAction a t0 actionInit) ticks) = 0 \<and>
        \<not> at_isComplete (actionRun a (handleSelectAction a t0 actionInit) ticks)"
  using actionRun_active [of "handleSelectAction a t0 actionInit" ticks a]
  by (simp add: handleSelectAction_def actionInit_def split: if_splits)

lemma remaining_antitone:
  fixes T :: int
  assumes "now \<le> now'"
  shows "max 0 (T - (now' - s) div 1000) \<le> max 0 (T - (now - s) div 1000)"
proof -
  have "(now - s) div 1000 \<le> (now' - s) div 1000"
    using assms by (intro zdiv_mono1) simp_all
  then show ?thesis by simp
qed

text \<open>
  C5. For the focus-session timer and for the replacement-action timer: a tick of the
  registered interval sets the remaining time to max(0, duration - elapsed), with the
  elapsed whole seconds taken from the recorded start instant and now; the remaining time
  is never negative and does not grow as now grows. Over any sequence of ticks the
  completion branch runs at most once; if at some tick the duration has elapsed it runs
  exactly once, and the state is then complete with remaining time 0. With duration 5, a
  tick 5 seconds or more after the start gives remaining 0 and one completion, whatever
  ticks come before and after it.
\<close>

theorem timers_count_down_and_complete_once:
  "(ft_timer st \<longrightarrow>
      ft_remainingSeconds (focusTick T now st) = max 0 (T - (now - ft_startTime st) div 1000) \<and>
      0 \<le> ft_remainingSeconds (focusTick T now st) \<and>
      (now \<le> now' \<longrightarrow>
         ft_remainingSeconds (focusTick T now' st) \<le> ft_remainingSeconds (focusTick T now st))) \<and>
   ft_completions (focusRun T (focusMount T t0) ticks) \<le> 1 \<and>
   ((\<exists>t \<in> set ticks. T \<le> (t - t0) div 1000) \<longrightarrow>
      ft_completions (focusRun T (focusMount T t0) ticks) = 1 \<and>
      ft_isComplete (focusRun T (focusMount T t0) ticks) \<and>
      ft_remainingSeconds (focusRun T (focusMount T t0) ticks) = 0) \<and>
   (5 \<le> (t - t0) div 1000 \<longrightarrow>
      ft_completions (focusRun 5 (focusMount 5 t0) (before @ t # after)) = 1 \<and>
      ft_isComplete (focusRun 5 (focusMount 5 t0) (before @ t # after)) \<and>
      ft_remainingSeconds (focusRun 5 (focusMount 5 t0) (before @ t # after)) = 0) \<and>
   (at_timer su \<longrightarrow>
      at_remainingSeconds (actionTick a now su) = max 0 (a_duration a - (now - at_startTime su) div 1000) \<and>
      0 \<le> at_remainingSeconds (actionTick a now su) \<and>
      (now \<le> now' \<longrightarrow>
         at_remainingSeconds (actionTick a now' su) \<le> at_remainingSeconds (actionTick a now su))) \<and>
   at_completions (actionRun a (handleSelectAction a t0 actionInit) ticks) \<le> 1 \<and>
   ((\<exists>t \<in> set ticks. a_duration a \<le> (t - t0) div 1000) \<longrightarrow>
      at_completions (actionRun a (handleSelectAction a t0 actionInit) ticks) = 1 \<and>
      at_isComplete (actionRun a (handleSelectAction a t0 actionInit) ticks) \<and>
      at_remainingSeconds (actionRun a (handleSelectAction a t0 actionInit) ticks) = 0) \<and>
   (a_duration a = 5 \<and> 5 \<le> (t - t0) div 1000 \<longrightarrow>
      at_completions (actionRun a (handleSelectAction a t0 actionInit) (before @ t # after)) = 1 \<and>
      at_isComplete (actionRun a (handleSelectAction a t0 actionInit) (before @ t # after)) \<and>
      at_remainingSeconds (actionRun a (handleSelectAction a t0 actionInit) (before @ t # after)) = 0)"
proof -
  have f1: "ft_timer st \<longrightarrow>
      ft_remainingSeconds (focusTick T now st) = max 0 (T - (now - ft_startTime st) div 1000) \<and>
      0 \<le> ft_remainingSeconds (focusTick T now st) \<and>
      (now \<le> now' \<longrightarrow>
         ft_remainingSeconds (focusTick T now' st) \<le> ft_remainingSeconds (focusTick T now st))"
    using remaining_antitone [of now now' T "ft_startTime st"]
    by (simp add: focusTick_remaining)
  have f2: "ft_completions (focusRun T (focusMount T t0) ticks) \<le> 1"
    using focusRun_mounted [of ticks T t0] by (simp split: if_splits)
  have f3: "(\<exists>t \<in> set ticks. T \<le> (t - t0) div 1000) \<longrightarrow>
      ft_completions (focusRun T (focusMount T t0) ticks) = 1 \<and>
      ft_isComplete (focusRun T (focusMount T t0) ticks) \<and>
      ft_remainingSeconds (focusRun T (focusMount T t0) ticks) = 0"
    using focusRun_mounted [of ticks T t0] by (simp split: if_splits)
  have f4: "5 \<le> (t - t0) div 1000 \<longrightarrow>
      ft_completions (focusRun 5 (focusMount 5 t0) (before @ t # after)) = 1 \<and>
      ft_isComplete (focusRun 5 (focusMount 5 t0) (before @ t # after)) \<and>
      ft_remainingSeconds (focusRun 5 (focusMount 5 t0) (before @ t # after)) = 0"
    using focusRun_mounted [of "before @ t # after" 5 t0] by (auto split: if_splits)
  have a1: "at_timer su \<longrightarrow>
      at_remainingSeconds (actionTick a now su) = max 0 (a_duration a - (now - at_startTime su) div 1000) \<and>
      0 \<le> at_remainingSeconds (actionTick a now su) \<and>
      (now \<le> now' \<longrightarrow>
         at_remainingSeconds (actionTick a now' su) \<le> at_remainingSeconds (actionTick a now su))"
    using remaining_antitone [of now now' "a_duration a" "at_startTime su"]
    by (simp add: actionTick_remaining)
  have a2: "at_completions (actionRun a (handleSelectAction a t0 actionInit) ticks) \<le> 1"
    using actionRun_selected [of ticks a t0] by (simp split: if_splits)
  have a3: "(\<exists>t \<in> set ticks. a_duration a \<le> (t - t0) div 1000) \<longrightarrow>
      at_completions (actionRun a (handleSelectAction a t0 actionInit) ticks) = 1 \<and>
      at_isComplete (actionRun a (handleSelectAction a t0 actionInit) ticks) \<and>
      at_remainingSeconds (actionRun a (handleSelectAction a t0 actionInit) ticks) = 0"
    using actionRun_selected [of ticks a t0] by (simp split: if_splits)
  have a4: "a_duration a = 5 \<and> 5 \<le> (t - t0) div 1000 \<longrightarrow>
      at_completions (actionRun a (handleSelectAction a t0 actionInit) (before @ t # after)) = 1 \<and>
      at_isComplete (actionRun a (handleSelectAction a t0 actionInit) (before @ t # after)) \<and>
      at_remainingSeconds (actionRun a (handleSelectAction a t0 actionInit) (before @ t # after)) = 0"
    using actionRun_selected [of "before @ t # after" a t0] by (auto split: if_splits)
  from f1 f2 f3 f4 a1 a2 a3 a4 show ?thesis by blast
qed

theorem timers_count_down_and_complete_once_witness:
  "ft_remainingSeconds (focusTick 5 2000 (focusMount 5 0)) = 3 \<and>
   ft_completions (focusRun 5 (focusMount 5 0) ([1000] @ 5000 # [6000, 7000])) = 1 \<and>
   ft_isComplete (focusRun 5 (focusMount 5 0) ([1000] @ 5000 # [6000, 7000])) \<and>
   ft_remainingSeconds (focusRun 5 (focusMount 5 0) ([1000] @ 5000 # [6000, 7000])) = 0 \<and>
   at_remainingSeconds (actionTick (ACTIONS ! 0) 2000 (handleSelectAction (ACTIONS ! 0) 0 actionInit)) = 58 \<and>
   at_completions (actionRun (ACTIONS ! 0) (handleSelectAction (ACTIONS ! 0) 0 actionInit)
     [30000, 60000, 61000]) = 1 \<and>
   at_isComplete (actionRun (ACTIONS ! 0) (handleSelectAction (ACTIONS ! 0) 0 actionInit)
     [30000, 60000, 61000]) \<and>
   at_completions (actionRun \<lparr>a_type = physical, a_label = ''Five'', a_duration = 5\<rparr>
     (handleSelectAction \<lparr>a_type = physical, a_label = ''Five'', a_duration = 5\<rparr> 0 actionInit)
     ([1000] @ 5000 # [6000, 7000])) = 1"
proof -
  have h: "ft_timer (focusMount 5 0)" "ft_startTime (focusMount 5 0) = 0"
    "at_timer (handleSelectAction (ACTIONS ! 0) 0 actionInit)"
    "at_startTime (handleSelectAction (ACTIONS ! 0) 0 actionInit) = 0"
    "a_duration (ACTIONS ! 0) = 60"
    by (simp_all add: focusMount_def handleSelectAction_def actionInit_def ACTIONS_def)
  have e: "\<exists>t \<in> set [30000, 60000, 61000]. a_duration (ACTIONS ! 0) \<le> (t - 0) div 1000"
    by (simp add: h(5))
  have one:
    "ft_remainingSeconds (focusTick 5 2000 (focusMount 5 0)) = 3 \<and>
     ft_completions (focusRun 5 (focusMount 5 0) ([1000] @ 5000 # [6000, 7000])) = 1 \<and>
     ft_isComplete (focusRun 5 (focusMount 5 0) ([1000] @ 5000 # [6000, 7000])) \<and>
     ft_remainingSeconds (focusRun 5 (focusMount 5 0) ([1000] @ 5000 # [6000, 7000])) = 0 \<and>
     at_remainingSeconds (actionTick (ACTIONS ! 0) 2000 (handleSelectAction (ACTIONS ! 0) 0 actionInit)) = 58 \<and>
     at_completions (actionRun (ACTIONS ! 0) (handleSelectAction (ACTIONS ! 0) 0 actionInit)
       [30000, 60000, 61000]) = 1 \<and>
     at_isComplete (actionRun (ACTIONS ! 0) (handleSelectAction (ACTIONS ! 0) 0 actionInit)
       [30000, 60000, 61000])"
    using timers_count_down_and_complete_once
      [where st = "focusMount 5 0" and T = 5 and now = 2000 and now' = 2000 and ?t0.0 = 0
         and ticks = "[30000, 60000, 61000]" and t = 5000 and before = "[1000]"
         and after = "[6000, 7000]" and su = "handleSelectAction (ACTIONS ! 0) 0 actionInit"
         and a = "ACTIONS ! 0"]
      h e
    by simp
  have two:
    "at_completions (actionRun \<lparr>a_type = physical, a_label = ''Five'', a_duration = 5\<rparr>
       (handleSelectAction \<lparr>a_type = physical, a_label = ''Five'', a_duration = 5\<rparr> 0 actionInit)
       ([1000] @ 5000 # [6000, 7000])) = 1"
    using timers_count_down_and_complete_once
      [where ?t0.0 = 0 and t = 5000 and before = "[1000]" and after = "[6000, 7000]"
         and a = "\<lparr>a_type = physical, a_label = ''Five'', a_duration = 5\<rparr>"]
    by simp
  from one two show ?thesis by blast
qed


end
